theory Spec2Isabelle
  imports Main
begin

section \<open>The crawl scheduler of \<^verbatim>\<open>runners/async_runner.py\<close>\<close>

subsection \<open>Data\<close>

text \<open>
  A player is a Python dict with string keys; the scheduler reads only its key \<^verbatim>\<open>"url"\<close>.
  The parser's result is a dict whose keys \<^verbatim>\<open>"from_team_page"\<close> and
  \<^verbatim>\<open>"from_player_page"\<close> may be absent (tested with \<^verbatim>\<open>in\<close>) and whose key
  \<^verbatim>\<open>"next_urls"\<close> is read unconditionally: an absent key is \<open>None\<close> here, and reading
  it raises \<open>KeyError\<close>.
\<close>

type_synonym entity = "(string \<times> string) list"

record fetch_result =
  from_team_page :: "entity list option"
  from_player_page :: "entity option"
  next_urls :: "string list option"

text \<open>What \<^verbatim>\<open>future.result()\<close> does: it raises an exception \<open>e\<close> (kept as \<^verbatim>\<open>str(e)\<close>)
  or returns the parser's result.\<close>

datatype outcome = Failed string | Fetched fetch_result

text \<open>
  Modelled from the spec: the class \<^verbatim>\<open>Item\<close> of \<^verbatim>\<open>runners/item.py\<close> is not among
  the sources; the spec gives it a \<open>url\<close> and a counter \<open>tries\<close> that starts at 0. Its
  time stamp \<^verbatim>\<open>start\<close> only feeds the duration printed in log lines and is left out.
\<close>

record item =
  url :: string
  tries :: int

definition Item :: "string \<Rightarrow> item" where
  "Item u = \<lparr>url = u, tries = 0\<rparr>"

text \<open>The dict \<^verbatim>\<open>{'url', 'tries', 'result', 'error'}\<close> handed to the sink; \<open>None\<close> is
  Python's \<^verbatim>\<open>None\<close>.\<close>

record outcome_record =
  w_url :: string
  w_tries :: int
  result :: "entity option"
  error :: "string option"

datatype exn = RuntimeError | KeyError string | ValueError

text \<open>The calls the runner makes on the player storage, and the lines it logs (without the
  durations).\<close>

datatype storage_call = AddPlayer string entity | ExtendPlayer string entity

datatype log_entry =
    Start string
  | Fail string int string
  | Postpone string int string
  | Success string int

text \<open>
  The constructor's arguments and the two collaborators whose answers the scheduler depends
  on. \<open>download cfg f u n\<close> is how the task \<open>f\<close>, fetching \<open>u\<close> on the \<open>n\<close>-th dispatch
  of its item, ends: every task has its own number, so any behaviour of network and parser
  is such a function. \<open>extend_player cfg calls u info\<close> is what the storage, after the calls
  \<open>calls\<close>, returns from \<^verbatim>\<open>extend_player(u, info)\<close>. The rate limiter only delays a task.
\<close>

record config =
  seed_urls :: "string list"
  max_parallel :: int
  max_tries :: int
  download :: "nat \<Rightarrow> string \<Rightarrow> int \<Rightarrow> outcome"
  extend_player :: "storage_call list \<Rightarrow> string \<Rightarrow> entity \<Rightarrow> entity option"

text \<open>
  The runner's fields, the sink's content, the storage's call history, the log, and the
  tasks: futures are numbered in creation order; a task is \<open>waiting\<close> for a permit of the
  semaphore, \<open>holding\<close> one, or \<open>completed\<close>. \<open>done_queue\<close> is what is left of
  \<^verbatim>\<open>for future in done\<close>.
\<close>

record runner =
  in_air :: "nat set"
  seen :: "string set"
  future_to_item :: "nat \<rightharpoonup> item"
  sink :: "outcome_record list"
  pl_storage :: "storage_call list"
  logged :: "log_entry list"
  next_future :: nat
  waiting :: "nat set"
  holding :: "nat set"
  completed :: "nat set"
  semaphore :: int
  done_queue :: "nat list"

text \<open>A raise keeps the state it happened in: nothing is rolled back.\<close>

type_synonym 'a result = "(exn \<times> runner) + 'a"

subsection \<open>The methods\<close>

definition fresh :: "config \<Rightarrow> runner" where
  "fresh cfg =
     \<lparr>in_air = {}, seen = {}, future_to_item = Map.empty, sink = [], pl_storage = [],
      logged = [], next_future = 0, waiting = {}, holding = {}, completed = {},
      semaphore = max_parallel cfg, done_queue = []\<rparr>"

text \<open>\<^verbatim>\<open>asyncio.Semaphore\<close> refuses a negative value.\<close>

definition init :: "config \<Rightarrow> runner result" where
  "init cfg = (if max_parallel cfg < 0 then Inl (ValueError, fresh cfg) else Inr (fresh cfg))"

definition submit :: "runner \<Rightarrow> item \<Rightarrow> runner" where
  "submit s it =
     (let it' = it\<lparr>tries := tries it + 1\<rparr>; f = next_future s
      in s\<lparr>next_future := Suc f,
           waiting := insert f (waiting s),
           in_air := insert f (in_air s),
           future_to_item := (future_to_item s)(f \<mapsto> it'),
           logged := logged s @ [Start (url it)],
           seen := insert (url it) (seen s)\<rparr>)"

definition write_out :: "runner \<Rightarrow> item \<Rightarrow> entity option \<Rightarrow> string option \<Rightarrow> runner result" where
  "write_out s it res err =
     (if res = None \<and> err = None then Inl (RuntimeError, s)
      else Inr (s\<lparr>sink := sink s @
                  [\<lparr>w_url = url it, w_tries = tries it, result = res, error = err\<rparr>]\<rparr>))"

fun add_players :: "runner \<Rightarrow> entity list \<Rightarrow> runner result" where
  "add_players s [] = Inr s"
| "add_players s (player # players) =
     (case map_of player ''url'' of
        None \<Rightarrow> Inl (KeyError ''url'', s)
      | Some u \<Rightarrow> add_players (s\<lparr>pl_storage := pl_storage s @ [AddPlayer u player]\<rparr>) players)"

definition return_next_urls :: "fetch_result \<Rightarrow> runner \<Rightarrow> (runner \<times> string list) result" where
  "return_next_urls r s =
     (case next_urls r of None \<Rightarrow> Inl (KeyError ''next_urls'', s) | Some us \<Rightarrow> Inr (s, us))"

definition handle_result ::
  "config \<Rightarrow> runner \<Rightarrow> item \<Rightarrow> fetch_result \<Rightarrow> (runner \<times> string list) result" where
  "handle_result cfg s it r =
     (case from_team_page r of
        Some players \<Rightarrow>
          (case add_players s players of
             Inl x \<Rightarrow> Inl x
           | Inr s' \<Rightarrow> return_next_urls r s')
      | None \<Rightarrow>
          (case from_player_page r of
             Some player_info \<Rightarrow>
               (case map_of player_info ''url'' of
                  None \<Rightarrow> Inl (KeyError ''url'', s)
                | Some u \<Rightarrow>
                    (case write_out (s\<lparr>pl_storage := pl_storage s @ [ExtendPlayer u player_info]\<rparr>) it
                            (extend_player cfg (pl_storage s) u player_info) None of
                       Inl x \<Rightarrow> Inl x
                     | Inr s' \<Rightarrow> return_next_urls r s'))
           | None \<Rightarrow> return_next_urls r s))"

text \<open>\<^verbatim>\<open>for url in next_urls: if url not in self._seen: self._submit(Item(url))\<close>\<close>

fun submit_new :: "runner \<Rightarrow> string list \<Rightarrow> runner" where
  "submit_new s [] = s"
| "submit_new s (u # us) = submit_new (if u \<in> seen s then s else submit s (Item u)) us"

text \<open>\<^verbatim>\<open>for url in self._seed_urls: self._submit(Item(url))\<close>\<close>

fun seed :: "runner \<Rightarrow> string list \<Rightarrow> runner" where
  "seed s [] = s"
| "seed s (u # us) = seed (submit s (Item u)) us"

text \<open>The body of \<^verbatim>\<open>for future in done\<close> for the future \<open>f\<close>.\<close>

definition handle_done :: "config \<Rightarrow> runner \<Rightarrow> nat \<Rightarrow> runner result" where
  "handle_done cfg s f =
     (case future_to_item s f of
        None \<Rightarrow> Inl (KeyError ''future'', s)
      | Some it \<Rightarrow>
          (let s1 = s\<lparr>future_to_item := (future_to_item s)(f := None)\<rparr>
           in case download cfg f (url it) (tries it) of
                Failed e \<Rightarrow>
                  if max_tries cfg \<le> tries it
                  then (case write_out s1 it None (Some e) of
                          Inl x \<Rightarrow> Inl x
                        | Inr s2 \<Rightarrow>
                            Inr (s2\<lparr>logged := logged s2 @ [Fail (url it) (tries it) e]\<rparr>))
                  else (let s2 = submit s1 it
                        in Inr (s2\<lparr>logged := logged s2 @ [Postpone (url it) (tries it + 1) e]\<rparr>))
              | Fetched r \<Rightarrow>
                  (case handle_result cfg s1 it r of
                     Inl x \<Rightarrow> Inl x
                   | Inr (s2, us) \<Rightarrow>
                       (let s3 = submit_new s2 us
                        in Inr (s3\<lparr>logged := logged s3 @ [Success (url it) (tries it)]\<rparr>)))))"

subsection \<open>A run\<close>

text \<open>
  The control thread and the tasks take turns at the \<^verbatim>\<open>await\<close>s. \<open>Acquire f\<close>: task
  \<open>f\<close> enters \<^verbatim>\<open>async with self._semaphore\<close> (any waiting task may be the next one, which
  covers the semaphore's own order). \<open>Complete f\<close>: task \<open>f\<close> leaves it, by return or by
  exception. \<open>Wake ds\<close>: \<^verbatim>\<open>asyncio.wait\<close> returns the completed futures of
  \<^verbatim>\<open>self._in_air\<close>, which the \<^verbatim>\<open>for\<close> loop will visit in the order \<open>ds\<close>. \<open>Handle\<close>:
  one round of the \<^verbatim>\<open>for\<close> loop, during which no task moves. A step is \<open>None\<close> when the
  event cannot happen in the state.
\<close>

datatype event = Acquire nat | Complete nat | Wake "nat list" | Handle

fun step :: "config \<Rightarrow> runner \<Rightarrow> event \<Rightarrow> runner result option" where
  "step cfg s (Acquire f) =
     (if done_queue s = [] \<and> f \<in> waiting s \<and> 0 < semaphore s
      then Some (Inr (s\<lparr>waiting := waiting s - {f}, holding := insert f (holding s),
                         semaphore := semaphore s - 1\<rparr>))
      else None)"
| "step cfg s (Complete f) =
     (if done_queue s = [] \<and> f \<in> holding s
      then Some (Inr (s\<lparr>holding := holding s - {f}, completed := insert f (completed s),
                         semaphore := semaphore s + 1\<rparr>))
      else None)"
| "step cfg s (Wake ds) =
     (if done_queue s = [] \<and> in_air s \<noteq> {} \<and> ds \<noteq> [] \<and> distinct ds
         \<and> set ds = in_air s \<inter> completed s
      then Some (Inr (s\<lparr>in_air := in_air s - set ds, done_queue := ds\<rparr>))
      else None)"
| "step cfg s Handle =
     (case done_queue s of
        [] \<Rightarrow> None
      | f # fs \<Rightarrow> Some (handle_done cfg (s\<lparr>done_queue := fs\<rparr>) f))"

text \<open>A schedule is run event by event; a raise ends it.\<close>

fun exec :: "config \<Rightarrow> runner \<Rightarrow> event list \<Rightarrow> runner result option" where
  "exec cfg s [] = Some (Inr s)"
| "exec cfg s (e # es) =
     (case step cfg s e of
        None \<Rightarrow> None
      | Some (Inl x) \<Rightarrow> (if es = [] then Some (Inl x) else None)
      | Some (Inr s') \<Rightarrow> exec cfg s' es)"

text \<open>The constructor, the seeding loop of \<^verbatim>\<open>run\<close>, then the schedule.\<close>

definition run :: "config \<Rightarrow> event list \<Rightarrow> runner result option" where
  "run cfg es =
     (case init cfg of
        Inl x \<Rightarrow> (if es = [] then Some (Inl x) else None)
      | Inr s \<Rightarrow> exec cfg (seed s (seed_urls cfg)) es)"


subsection \<open>Observations\<close>

text \<open>The state a run ends in, and what can be read off it.\<close>

definition state_of :: "runner result \<Rightarrow> runner" where
  "state_of res = (case res of Inl (x, s) \<Rightarrow> s | Inr s \<Rightarrow> s)"

definition outcome_state :: "(runner \<times> string list) result \<Rightarrow> runner" where
  "outcome_state res = (case res of Inl (x, s) \<Rightarrow> s | Inr (s, us) \<Rightarrow> s)"

definition after_run :: "config \<Rightarrow> event list \<Rightarrow> (runner \<Rightarrow> 'a) \<Rightarrow> 'a option" where
  "after_run cfg es obs = map_option (\<lambda>res. obs (state_of res)) (run cfg es)"

definition items_of :: "nat list \<Rightarrow> runner \<Rightarrow> item option list" where
  "items_of fs s = map (future_to_item s) fs"

text \<open>The dispatches of a URL are its \<^verbatim>\<open>start:\<close> lines in the log; its records are the
  dicts written to the sink under it; its flights are the futures that stand for it in
  \<^verbatim>\<open>_future_to_item\<close>, each with the \<open>tries\<close> of its item.\<close>

definition dispatches :: "string \<Rightarrow> runner \<Rightarrow> nat" where
  "dispatches u s = count_list (logged s) (Start u)"

definition records :: "string \<Rightarrow> runner \<Rightarrow> outcome_record list" where
  "records u s = filter (\<lambda>r. w_url r = u) (sink s)"

definition flights :: "string \<Rightarrow> runner \<Rightarrow> (nat \<rightharpoonup> int)" where
  "flights u s =
     (\<lambda>f. case future_to_item s f of
             None \<Rightarrow> None
           | Some it \<Rightarrow> if url it = u then Some (tries it) else None)"

definition exactly_one :: "outcome_record \<Rightarrow> bool" where
  "exactly_one r \<longleftrightarrow> (result r = None) \<noteq> (error r = None)"

subsection \<open>Invariants\<close>

text \<open>Storage and sink apart, nothing has changed.\<close>

definition same_tasks :: "runner \<Rightarrow> runner \<Rightarrow> bool" where
  "same_tasks s s' \<longleftrightarrow>
     in_air s' = in_air s \<and> seen s' = seen s \<and> future_to_item s' = future_to_item s \<and>
     logged s' = logged s \<and> next_future s' = next_future s \<and> waiting s' = waiting s \<and>
     holding s' = holding s \<and> completed s' = completed s \<and> semaphore s' = semaphore s \<and>
     done_queue s' = done_queue s"

text \<open>Only new tasks have appeared, numbered from \<open>next_future\<close> on.\<close>

definition spawned :: "runner \<Rightarrow> runner \<Rightarrow> bool" where
  "spawned s s' \<longleftrightarrow>
     holding s' = holding s \<and> completed s' = completed s \<and> semaphore s' = semaphore s \<and>
     next_future s \<le> next_future s' \<and>
     in_air s' = in_air s \<union> {next_future s..<next_future s'} \<and>
     waiting s' = waiting s \<union> {next_future s..<next_future s'}"

definition numbered :: "runner \<Rightarrow> bool" where
  "numbered s \<longleftrightarrow> (\<forall>f\<in>dom (future_to_item s). f < next_future s)"

definition frontier_ok :: "runner \<Rightarrow> bool" where
  "frontier_ok s \<longleftrightarrow> (\<forall>f it. future_to_item s f = Some it \<longrightarrow> url it \<in> seen s)"

definition sink_ok :: "runner \<Rightarrow> bool" where
  "sink_ok s \<longleftrightarrow> list_all exactly_one (sink s)"

definition sched_ok :: "runner \<Rightarrow> bool" where
  "sched_ok s \<longleftrightarrow> numbered s \<and> frontier_ok s \<and> sink_ok s"

definition permits_ok :: "config \<Rightarrow> runner \<Rightarrow> bool" where
  "permits_ok cfg s \<longleftrightarrow>
     finite (holding s) \<and> 0 \<le> semaphore s \<and>
     int (card (holding s)) + semaphore s = max_parallel cfg \<and>
     holding s \<subseteq> in_air s \<and> waiting s \<subseteq> in_air s \<and>
     holding s \<inter> waiting s = {} \<and> completed s \<inter> holding s = {} \<and>
     completed s \<inter> waiting s = {} \<and>
     (\<forall>f\<in>holding s. f < next_future s) \<and> (\<forall>f\<in>completed s. f < next_future s) \<and>
     (\<forall>f\<in>waiting s. f < next_future s)"

subsection \<open>The life of one URL\<close>

text \<open>
  What a state shows of a URL \<open>u\<close>: whether it is in the frontier, its flights, its
  dispatches and its records. A URL is unseen; or in flight, on its \<open>t\<close>-th dispatch, under
  exactly one future; or settled, with \<open>t\<close> dispatches made and the records \<open>rs\<close> written.
\<close>

definition view :: "string \<Rightarrow> runner \<Rightarrow> bool \<times> (nat \<rightharpoonup> int) \<times> nat \<times> outcome_record list" where
  "view u s = (u \<in> seen s, flights u s, dispatches u s, records u s)"

definition unseen :: "string \<Rightarrow> runner \<Rightarrow> bool" where
  "unseen u s \<longleftrightarrow>
     u \<notin> seen s \<and> flights u s = Map.empty \<and> dispatches u s = 0 \<and> records u s = []"

definition in_flight :: "string \<Rightarrow> int \<Rightarrow> runner \<Rightarrow> bool" where
  "in_flight u t s \<longleftrightarrow>
     u \<in> seen s \<and> (\<exists>f. flights u s = [f \<mapsto> t]) \<and> int (dispatches u s) = t \<and> records u s = []"

definition settled :: "string \<Rightarrow> int \<Rightarrow> outcome_record list \<Rightarrow> runner \<Rightarrow> bool" where
  "settled u t rs s \<longleftrightarrow>
     u \<in> seen s \<and> flights u s = Map.empty \<and> int (dispatches u s) = t \<and> records u s = rs"

text \<open>A step that leaves the life of \<open>u\<close> alone, or dispatches it for the first time.\<close>

definition undisturbed :: "string \<Rightarrow> runner \<Rightarrow> runner \<Rightarrow> bool" where
  "undisturbed u s s' \<longleftrightarrow>
     (unseen u s \<longrightarrow> unseen u s' \<or> in_flight u 1 s') \<and>
     (\<forall>t. in_flight u t s \<longrightarrow> in_flight u t s') \<and>
     (\<forall>t rs. settled u t rs s \<longrightarrow> settled u t rs s')"


subsection \<open>Sample runs\<close>

text \<open>One seed, one permit, three tries, a network that always times out and a storage
  that returns the player it is given.\<close>

definition demo :: config where
  "demo = \<lparr>seed_urls = [''u''], max_parallel = 1, max_tries = 3,
           download = (\<lambda>f u n. Failed ''timeout''),
           extend_player = (\<lambda>calls u info. Some info)\<rparr>"

definition team_page :: fetch_result where
  "team_page = \<lparr>from_team_page = Some [[(''url'', ''p1'')], [(''url'', ''p2'')]],
                from_player_page = None, next_urls = Some [''v'', ''w'']\<rparr>"

definition player_page :: fetch_result where
  "player_page = \<lparr>from_team_page = None, from_player_page = Some [(''url'', ''p'')],
                  next_urls = Some [''v'']\<rparr>"

definition both_pages :: fetch_result where
  "both_pages = team_page\<lparr>from_player_page := Some [(''url'', ''p'')]\<rparr>"

text \<open>A task gets its permit, completes, and the loop handles it.\<close>

definition one_round :: "nat \<Rightarrow> event list" where
  "one_round f = [Acquire f, Complete f, Wake [f], Handle]"

text \<open>One try only; a page whose storage returns null; two seeds for one permit; the state
  in which the loop is about to handle the first failure.\<close>

definition quick :: config where
  "quick = demo\<lparr>max_tries := 1\<rparr>"

definition null_storage :: config where
  "null_storage = demo\<lparr>download := (\<lambda>f u n. Fetched player_page),
                       extend_player := (\<lambda>calls u info. None)\<rparr>"

definition crowd :: config where
  "crowd = demo\<lparr>seed_urls := [''a'', ''b'']\<rparr>"

definition woken :: runner where
  "woken = (case run demo [Acquire 0, Complete 0, Wake [0]] of
              Some (Inr s) \<Rightarrow> s | _ \<Rightarrow> fresh demo)"

text \<open>C2 as the spec words it: the in-flight set is no larger than \<open>max_parallel\<close>.\<close>

definition in_air_bounded :: "config \<Rightarrow> runner \<Rightarrow> bool" where
  "in_air_bounded cfg s \<longleftrightarrow> int (card (in_air s)) \<le> max_parallel cfg"

text \<open>Three rounds in a row; no try allowed; a page that answers on the third dispatch; one
  URL seeded twice.\<close>

definition three_rounds :: "event list" where
  "three_rounds = one_round 0 @ one_round 1 @ one_round 2"



definition twice :: config where
  "twice = demo\<lparr>seed_urls := [''u'', ''u'']\<rparr>"

section \<open>Proofs\<close>

subsection \<open>What each method touches\<close>

lemma state_of_simps [simp]: "state_of (Inl (x, s)) = s" "state_of (Inr s) = s"
  by (simp_all add: state_of_def)

lemma submit_fields [simp]:
  "next_future (submit s it) = Suc (next_future s)"
  "waiting (submit s it) = insert (next_future s) (waiting s)"
  "in_air (submit s it) = insert (next_future s) (in_air s)"
  "future_to_item (submit s it) = (future_to_item s)(next_future s \<mapsto> it\<lparr>tries := tries it + 1\<rparr>)"
  "logged (submit s it) = logged s @ [Start (url it)]"
  "seen (submit s it) = insert (url it) (seen s)"
  "sink (submit s it) = sink s"
  "pl_storage (submit s it) = pl_storage s"
  "holding (submit s it) = holding s"
  "completed (submit s it) = completed s"
  "semaphore (submit s it) = semaphore s"
  "done_queue (submit s it) = done_queue s"
  by (simp_all add: submit_def Let_def)

lemma same_tasks_refl [simp]: "same_tasks s s"
  by (simp add: same_tasks_def)

lemma same_tasks_upd [simp]:
  "same_tasks s (s'\<lparr>pl_storage := c\<rparr>) = same_tasks s s'"
  "same_tasks s (s'\<lparr>sink := k\<rparr>) = same_tasks s s'"
  by (simp_all add: same_tasks_def)

lemma add_players_frame:
  "same_tasks s (state_of (add_players s ps)) \<and> sink (state_of (add_players s ps)) = sink s"
proof (induction ps arbitrary: s)
  case Nil
  show ?case by simp
next
  case (Cons p ps)
  show ?case
  proof (cases "map_of p ''url''")
    case None
    then show ?thesis by simp
  next
    case (Some u)
    with Cons [of "s\<lparr>pl_storage := pl_storage s @ [AddPlayer u p]\<rparr>"]
    show ?thesis by (simp add: same_tasks_def)
  qed
qed

lemma outcome_state_simps [simp]:
  "outcome_state (Inl (x, s)) = s" "outcome_state (Inr (s, us)) = s"
  by (simp_all add: outcome_state_def)

lemma outcome_state_next [simp]: "outcome_state (return_next_urls r s) = s"
  by (simp add: return_next_urls_def split: option.split)

lemma outcome_state_case [simp]:
  "outcome_state (case res of Inl x \<Rightarrow> Inl x | Inr s' \<Rightarrow> return_next_urls r s') = state_of res"
  by (cases res) (auto)

lemma write_out_frame:
  "same_tasks s (state_of (write_out s it res err)) \<and>
   pl_storage (state_of (write_out s it res err)) = pl_storage s"
  by (simp add: write_out_def)

lemma write_out_sink:
  "sink (state_of (write_out s it res err)) =
     (if res = None \<and> err = None then sink s
      else sink s @ [\<lparr>w_url = url it, w_tries = tries it, result = res, error = err\<rparr>])"
  by (simp add: write_out_def)

lemma handle_result_frame: "same_tasks s (outcome_state (handle_result cfg s it r))"
  using add_players_frame [of s] write_out_frame
  by (auto simp: handle_result_def write_out_def split: option.split)

lemma handle_result_sink:
  "sink (outcome_state (handle_result cfg s it r)) = sink s \<or>
   (\<exists>m. sink (outcome_state (handle_result cfg s it r)) =
      sink s @ [\<lparr>w_url = url it, w_tries = tries it, result = Some m, error = None\<rparr>])"
  using add_players_frame [of s]
  by (auto simp: handle_result_def write_out_def split: option.split)

lemma handle_done_cases [consumes 1, case_names missing give_up retry fetched raised]:
  assumes "handle_done cfg s f = res"
  obtains "future_to_item s f = None" "res = Inl (KeyError ''future'', s)"
  | it e where "future_to_item s f = Some it"
      "download cfg f (url it) (tries it) = Failed e" "max_tries cfg \<le> tries it"
      "res = Inr (s\<lparr>future_to_item := (future_to_item s)(f := None),
                     sink := sink s @ [\<lparr>w_url = url it, w_tries = tries it, result = None,
                                        error = Some e\<rparr>],
                     logged := logged s @ [Fail (url it) (tries it) e]\<rparr>)"
  | it e s2 where "future_to_item s f = Some it"
      "download cfg f (url it) (tries it) = Failed e" "tries it < max_tries cfg"
      "s2 = submit (s\<lparr>future_to_item := (future_to_item s)(f := None)\<rparr>) it"
      "res = Inr (s2\<lparr>logged := logged s2 @ [Postpone (url it) (tries it + 1) e]\<rparr>)"
  | it r s2 us s3 where "future_to_item s f = Some it"
      "download cfg f (url it) (tries it) = Fetched r"
      "handle_result cfg (s\<lparr>future_to_item := (future_to_item s)(f := None)\<rparr>) it r = Inr (s2, us)"
      "s3 = submit_new s2 us"
      "res = Inr (s3\<lparr>logged := logged s3 @ [Success (url it) (tries it)]\<rparr>)"
  | it r x s2 where "future_to_item s f = Some it"
      "download cfg f (url it) (tries it) = Fetched r"
      "handle_result cfg (s\<lparr>future_to_item := (future_to_item s)(f := None)\<rparr>) it r = Inl (x, s2)"
      "res = Inl (x, s2)"
proof (cases "future_to_item s f")
  case None
  with assms that(1) show ?thesis by (simp add: handle_done_def)
next
  case (Some it)
  show ?thesis
  proof (cases "download cfg f (url it) (tries it)")
    case (Failed e)
    show ?thesis
    proof (cases "max_tries cfg \<le> tries it")
      case True
      with assms Some Failed that(2) [of it e] show ?thesis
        by (simp add: handle_done_def write_out_def)
    next
      case False
      with assms Some Failed that(3) [of it e] show ?thesis
        by (simp add: handle_done_def Let_def)
    qed
  next
    case (Fetched r)
    show ?thesis
    proof (cases "handle_result cfg (s\<lparr>future_to_item := (future_to_item s)(f := None)\<rparr>) it r")
      case (Inl xs)
      with assms Some Fetched that(5) [of it r "fst xs" "snd xs"] show ?thesis
        by (simp add: handle_done_def)
    next
      case (Inr p)
      with assms Some Fetched that(4) [of it r "fst p" "snd p"] show ?thesis
        by (simp add: handle_done_def Let_def split: prod.splits)
    qed
  qed
qed

subsection \<open>Futures, frontier and sink\<close>

lemma sched_ok_submit: "sched_ok s \<Longrightarrow> sched_ok (submit s it)"
  by (auto simp: sched_ok_def numbered_def frontier_ok_def sink_ok_def list_all_iff exactly_one_def dom_def less_Suc_eq)

lemma sched_ok_seed: "sched_ok s \<Longrightarrow> sched_ok (seed s us)"
  by (induction us arbitrary: s) (simp_all add: sched_ok_submit)

lemma sched_ok_submit_new: "sched_ok s \<Longrightarrow> sched_ok (submit_new s us)"
  by (induction us arbitrary: s) (simp_all add: sched_ok_submit)

lemma sched_ok_pop: "sched_ok s \<Longrightarrow> sched_ok (s\<lparr>future_to_item := (future_to_item s)(f := None)\<rparr>)"
  by (auto simp: sched_ok_def numbered_def frontier_ok_def sink_ok_def list_all_iff exactly_one_def split: if_splits)

lemma sched_ok_same:
  assumes "sched_ok s" "same_tasks s s'"
    and "sink s' = sink s \<or> (\<exists>r. sink s' = sink s @ [r] \<and> (result r = None) \<noteq> (error r = None))"
  shows "sched_ok s'"
  using assms by (auto simp: sched_ok_def numbered_def frontier_ok_def sink_ok_def list_all_iff exactly_one_def same_tasks_def)

lemma sched_ok_logged [simp]: "sched_ok (s\<lparr>logged := l\<rparr>) = sched_ok s"
  by (simp add: sched_ok_def numbered_def frontier_ok_def sink_ok_def list_all_iff exactly_one_def)

lemma sched_ok_queue [simp]: "sched_ok (s\<lparr>done_queue := q\<rparr>) = sched_ok s"
  by (simp add: sched_ok_def numbered_def frontier_ok_def sink_ok_def list_all_iff exactly_one_def)

lemma sched_ok_handle_result:
  assumes "sched_ok s"
  shows "sched_ok (outcome_state (handle_result cfg s it r))"
proof (rule sched_ok_same [OF assms handle_result_frame])
  from handle_result_sink [of cfg s it r]
  show "sink (outcome_state (handle_result cfg s it r)) = sink s \<or>
    (\<exists>ra. sink (outcome_state (handle_result cfg s it r)) = sink s @ [ra] \<and>
      (result ra = None) \<noteq> (error ra = None))"
    by auto
qed

lemma sched_ok_handle_done:
  assumes "sched_ok s"
  shows "sched_ok (state_of (handle_done cfg s f))"
proof -
  let ?p = "s\<lparr>future_to_item := (future_to_item s)(f := None)\<rparr>"
  have p: "sched_ok ?p" by (rule sched_ok_pop [OF assms])
  obtain res where res: "handle_done cfg s f = res" by simp
  then show ?thesis
  proof (cases rule: handle_done_cases)
    case missing
    with assms res show ?thesis by simp
  next
    case (give_up it e)
    have "sched_ok (?p\<lparr>sink := sink s @ [\<lparr>w_url = url it, w_tries = tries it, result = None,
                                        error = Some e\<rparr>]\<rparr>)"
      by (rule sched_ok_same [OF p]) (simp_all add: same_tasks_def)
    with give_up res show ?thesis by simp
  next
    case (retry it e s2)
    with res sched_ok_submit [OF p, of it] show ?thesis by simp
  next
    case (fetched it r s2 us s3)
    from sched_ok_handle_result [OF p, of cfg it r] fetched have "sched_ok s2" by simp
    with fetched res show ?thesis by (simp add: sched_ok_submit_new)
  next
    case (raised it r x s2)
    from sched_ok_handle_result [OF p, of cfg it r] raised have "sched_ok s2" by simp
    with raised res show ?thesis by simp
  qed
qed

lemma step_sched_ok:
  assumes "sched_ok s" "step cfg s e = Some res"
  shows "sched_ok (state_of res)"
proof (cases e)
  case (Acquire f)
  with assms show ?thesis
    by (auto simp: sched_ok_def numbered_def frontier_ok_def sink_ok_def list_all_iff exactly_one_def split: if_splits)
next
  case (Complete f)
  with assms show ?thesis
    by (auto simp: sched_ok_def numbered_def frontier_ok_def sink_ok_def list_all_iff exactly_one_def split: if_splits)
next
  case (Wake ds)
  with assms show ?thesis
    by (auto simp: sched_ok_def numbered_def frontier_ok_def sink_ok_def list_all_iff exactly_one_def split: if_splits)
next
  case Handle
  with assms obtain f fs where q: "done_queue s = f # fs"
    and res: "res = handle_done cfg (s\<lparr>done_queue := fs\<rparr>) f"
    by (auto split: list.splits)
  from assms(1) have "sched_ok (s\<lparr>done_queue := fs\<rparr>)" by simp
  from sched_ok_handle_done [OF this] res show ?thesis by simp
qed

text \<open>Every state of a run, the one of a raise included, is reached by steps.\<close>

lemma exec_invariant:
  assumes "exec cfg s es = Some res" "P s"
    and "\<And>s e res. P s \<Longrightarrow> step cfg s e = Some res \<Longrightarrow> P (state_of res)"
  shows "P (state_of res)"
  using assms(1,2)
proof (induction es arbitrary: s)
  case Nil
  then show ?case by auto
next
  case (Cons e es)
  show ?case
  proof (cases "step cfg s e")
    case None
    with Cons.prems show ?thesis by simp
  next
    case (Some r)
    show ?thesis
    proof (cases r)
      case (Inl x)
      with Some Cons.prems have "res = r" by (simp split: if_splits)
      with assms(3) [OF Cons.prems(2) Some] show ?thesis by simp
    next
      case (Inr s')
      with assms(3) [OF Cons.prems(2) Some] have "P s'" by simp
      moreover from Inr Some Cons.prems have "exec cfg s' es = Some res" by simp
      ultimately show ?thesis by (rule Cons.IH [rotated])
    qed
  qed
qed

lemma sched_ok_fresh: "sched_ok (fresh cfg)"
  by (simp add: sched_ok_def numbered_def frontier_ok_def sink_ok_def list_all_iff exactly_one_def fresh_def)

lemma run_invariant:
  assumes "run cfg es = Some res"
    and "P (fresh cfg)"
    and "0 \<le> max_parallel cfg \<Longrightarrow> P (seed (fresh cfg) (seed_urls cfg))"
    and "\<And>s e res. P s \<Longrightarrow> step cfg s e = Some res \<Longrightarrow> P (state_of res)"
  shows "P (state_of res)"
proof (cases "max_parallel cfg < 0")
  case True
  with assms(1) have "res = Inl (ValueError, fresh cfg)"
    by (simp add: run_def init_def split: if_splits)
  with assms(2) show ?thesis by simp
next
  case False
  with assms(1) have "exec cfg (seed (fresh cfg) (seed_urls cfg)) es = Some res"
    by (simp add: run_def init_def)
  moreover from False assms(3) have "P (seed (fresh cfg) (seed_urls cfg))" by simp
  ultimately show ?thesis using assms(4) by (rule exec_invariant)
qed

lemma run_sched_ok: "run cfg es = Some res \<Longrightarrow> sched_ok (state_of res)"
proof (rule run_invariant [where P = sched_ok])
  show "sched_ok (fresh cfg)" by (rule sched_ok_fresh)
  show "sched_ok (seed (fresh cfg) (seed_urls cfg))" by (rule sched_ok_seed [OF sched_ok_fresh])
  show "\<And>s e res. sched_ok s \<Longrightarrow> step cfg s e = Some res \<Longrightarrow> sched_ok (state_of res)"
    by (rule step_sched_ok)
qed

subsection \<open>Permits\<close>

lemma spawned_refl [simp]: "spawned s s"
  by (simp add: spawned_def)

lemma spawned_trans: "spawned s s' \<Longrightarrow> spawned s' s'' \<Longrightarrow> spawned s s''"
  unfolding spawned_def
  by (auto simp: Un_assoc ivl_disj_un_two)

lemma spawned_submit: "spawned s (submit s it)"
  by (auto simp: spawned_def)

lemma spawned_seed: "spawned s (seed s us)"
proof (induction us arbitrary: s)
  case Nil
  show ?case by simp
next
  case (Cons u us)
  from spawned_trans [OF spawned_submit Cons] show ?case by simp
qed

lemma spawned_submit_new: "spawned s (submit_new s us)"
proof (induction us arbitrary: s)
  case Nil
  show ?case by simp
next
  case (Cons u us)
  show ?case
  proof (cases "u \<in> seen s")
    case True
    with Cons [of s] show ?thesis by simp
  next
    case False
    with spawned_trans [OF spawned_submit Cons, of s "Item u"] show ?thesis by simp
  qed
qed

lemma spawned_same: "same_tasks s s' \<Longrightarrow> spawned s s'"
  by (simp add: spawned_def same_tasks_def)

lemma spawned_upd [simp]:
  "spawned s (s'\<lparr>logged := l\<rparr>) = spawned s s'"
  "spawned s (s'\<lparr>sink := k\<rparr>) = spawned s s'"
  "spawned s (s'\<lparr>future_to_item := m\<rparr>) = spawned s s'"
  "spawned (s\<lparr>future_to_item := m\<rparr>) s' = spawned s s'"
  "spawned (s\<lparr>done_queue := q\<rparr>) s' = spawned s s'"
  by (simp_all add: spawned_def)

lemma spawned_handle_done: "spawned s (state_of (handle_done cfg s f))"
proof -
  let ?p = "s\<lparr>future_to_item := (future_to_item s)(f := None)\<rparr>"
  obtain res where res: "handle_done cfg s f = res" by simp
  then show ?thesis
  proof (cases rule: handle_done_cases)
    case missing
    with res show ?thesis by simp
  next
    case (give_up it e)
    with res show ?thesis by simp
  next
    case (retry it e s2)
    with res spawned_submit [of ?p it] show ?thesis by simp
  next
    case (fetched it r s2 us s3)
    from handle_result_frame [of ?p cfg it r] fetched have "same_tasks ?p s2" by simp
    then have "spawned ?p s2" by (rule spawned_same)
    then have "spawned s s2" by simp
    from spawned_trans [OF this spawned_submit_new [of s2 us]] fetched res
    show ?thesis by simp
  next
    case (raised it r x s2)
    from handle_result_frame [of ?p cfg it r] raised have "same_tasks ?p s2" by simp
    then have "spawned ?p s2" by (rule spawned_same)
    then have "spawned s s2" by simp
    with raised res show ?thesis by simp
  qed
qed

lemma permits_ok_spawned:
  assumes "permits_ok cfg s" "spawned s s'"
  shows "permits_ok cfg s'"
proof -
  from assms have "\<And>f. f \<in> holding s \<union> completed s \<union> waiting s \<Longrightarrow> f < next_future s"
    by (auto simp: permits_ok_def)
  then have "\<And>f. f \<in> holding s \<union> completed s \<union> waiting s \<Longrightarrow>
      f \<notin> {next_future s..<next_future s'} \<and> f < next_future s'"
    using assms(2) by (fastforce simp: spawned_def)
  with assms show ?thesis
    unfolding permits_ok_def spawned_def by (auto simp: disjoint_iff)
qed

lemma permits_ok_fresh: "0 \<le> max_parallel cfg \<Longrightarrow> permits_ok cfg (fresh cfg)"
  by (simp add: permits_ok_def fresh_def)

lemma permits_ok_acquire:
  assumes "permits_ok cfg s" "f \<in> waiting s" "0 < semaphore s"
  shows "permits_ok cfg (s\<lparr>waiting := waiting s - {f}, holding := insert f (holding s),
                          semaphore := semaphore s - 1\<rparr>)"
proof -
  from assms have "f \<notin> holding s" "finite (holding s)" by (auto simp: permits_ok_def)
  then have "int (card (insert f (holding s))) = int (card (holding s)) + 1" by simp
  with assms show ?thesis by (auto simp: permits_ok_def)
qed

lemma permits_ok_complete:
  assumes "permits_ok cfg s" "f \<in> holding s"
  shows "permits_ok cfg (s\<lparr>holding := holding s - {f}, completed := insert f (completed s),
                          semaphore := semaphore s + 1\<rparr>)"
proof -
  from assms have "finite (holding s)" by (simp add: permits_ok_def)
  from card.remove [OF this assms(2)]
  have "int (card (holding s - {f})) = int (card (holding s)) - 1" by simp
  with assms show ?thesis by (auto simp: permits_ok_def)
qed

lemma permits_ok_wake:
  assumes "permits_ok cfg s" "set ds = in_air s \<inter> completed s"
  shows "permits_ok cfg (s\<lparr>in_air := in_air s - set ds, done_queue := ds\<rparr>)"
  using assms by (auto simp: permits_ok_def)

lemma permits_ok_queue [simp]: "permits_ok cfg (s\<lparr>done_queue := q\<rparr>) = permits_ok cfg s"
  by (simp add: permits_ok_def)

lemma step_permits_ok:
  assumes "permits_ok cfg s" "step cfg s e = Some res"
  shows "permits_ok cfg (state_of res)"
proof (cases e)
  case (Acquire f)
  with assms permits_ok_acquire [of cfg s f] show ?thesis by (auto split: if_splits)
next
  case (Complete f)
  with assms permits_ok_complete [of cfg s f] show ?thesis by (auto split: if_splits)
next
  case (Wake ds)
  with assms permits_ok_wake [of cfg s ds] show ?thesis by (auto split: if_splits)
next
  case Handle
  with assms obtain f fs where q: "done_queue s = f # fs"
    and res: "res = handle_done cfg (s\<lparr>done_queue := fs\<rparr>) f"
    by (auto split: list.splits)
  from assms(1) have "permits_ok cfg (s\<lparr>done_queue := fs\<rparr>)" by simp
  from permits_ok_spawned [OF this spawned_handle_done] res show ?thesis by simp
qed

lemma run_started:
  assumes "run cfg es = Some res" "0 \<le> max_parallel cfg"
  shows "exec cfg (seed (fresh cfg) (seed_urls cfg)) es = Some res"
  using assms by (simp add: run_def init_def)

lemma run_permits_ok:
  assumes "run cfg es = Some res" "0 \<le> max_parallel cfg"
  shows "permits_ok cfg (state_of res)"
proof (rule exec_invariant [OF run_started [OF assms]])
  show "permits_ok cfg (seed (fresh cfg) (seed_urls cfg))"
    by (rule permits_ok_spawned [OF permits_ok_fresh [OF assms(2)] spawned_seed])
  show "\<And>s e res. permits_ok cfg s \<Longrightarrow> step cfg s e = Some res \<Longrightarrow> permits_ok cfg (state_of res)"
    by (rule step_permits_ok)
qed

subsection \<open>One URL through a run\<close>


lemma undisturbed_refl [simp]: "undisturbed u s s"
  by (simp add: undisturbed_def)



lemma numbered_submit: "numbered s \<Longrightarrow> numbered (submit s it)"
  by (auto simp: numbered_def dom_def less_Suc_eq)



lemma numbered_seed: "numbered s \<Longrightarrow> numbered (seed s us)"
  by (induction us arbitrary: s) (simp_all add: numbered_submit)




lemma numbered_upd [simp]:
  "numbered (s\<lparr>done_queue := q\<rparr>) = numbered s"
  "numbered (s\<lparr>logged := l\<rparr>) = numbered s"
  "numbered (s\<lparr>sink := k\<rparr>) = numbered s"
  by (simp_all add: numbered_def)



lemma view_upd [simp]:
  "view u (s\<lparr>done_queue := q\<rparr>) = view u s"
  "view u (s\<lparr>pl_storage := c\<rparr>) = view u s"
  "view u (s\<lparr>waiting := w\<rparr>) = view u s"
  "view u (s\<lparr>holding := h\<rparr>) = view u s"
  "view u (s\<lparr>completed := d\<rparr>) = view u s"
  "view u (s\<lparr>semaphore := p\<rparr>) = view u s"
  "view u (s\<lparr>in_air := a\<rparr>) = view u s"
  by (simp_all add: view_def flights_def dispatches_def records_def)



lemma view_sink_other:
  "w_url r \<noteq> u \<Longrightarrow> view u (s\<lparr>sink := sink s @ [r]\<rparr>) = view u s"
  by (simp add: view_def flights_def dispatches_def records_def)









lemma flights_upd [simp]:
  "flights u (s\<lparr>logged := l\<rparr>) = flights u s"
  "flights u (s\<lparr>sink := k\<rparr>) = flights u s"
  by (simp_all add: flights_def)














section \<open>The claims\<close>

subsection \<open>The result dispatcher\<close>

lemma add_players_calls:
  "map (\<lambda>p. map_of p ''url'') players = map Some us \<Longrightarrow>
   add_players s players = Inr (s\<lparr>pl_storage := pl_storage s @ map2 AddPlayer us players\<rparr>)"
proof (induction players arbitrary: s us)
  case Nil
  then show ?case by simp
next
  case (Cons p ps)
  then obtain v vs where us: "us = v # vs" by (cases us) auto
  with Cons.prems have p: "map_of p ''url'' = Some v"
    and ps: "map (\<lambda>p. map_of p ''url'') ps = map Some vs" by auto
  show ?case using Cons.IH [OF ps] by (simp add: us p)
qed

lemma team_page_branch:
  assumes "from_team_page r = Some players"
    and "map (\<lambda>p. map_of p ''url'') players = map Some us"
    and "next_urls r = Some nx"
  shows "handle_result cfg s it r =
           Inr (s\<lparr>pl_storage := pl_storage s @ map2 AddPlayer us players\<rparr>, nx)"
  using assms by (simp add: handle_result_def return_next_urls_def add_players_calls)

text \<open>
  C4, as amended. A result with a detail-page entity and no collection-page list, whose
  entity has a \<open>url\<close> and for which the storage's extend returns a record \<open>merged\<close>: the
  entity goes to extend, exactly one record is appended to the sink, it is the item's, its
  \<open>result\<close> is \<open>merged\<close> and its \<open>error\<close> is null.
\<close>

theorem detail_page_written:
  assumes "from_team_page r = None"
    and "from_player_page r = Some info"
    and "map_of info ''url'' = Some u"
    and "extend_player cfg (pl_storage s) u info = Some merged"
  shows "sink (outcome_state (handle_result cfg s it r)) =
           sink s @ [\<lparr>w_url = url it, w_tries = tries it, result = Some merged, error = None\<rparr>]
         \<and> pl_storage (outcome_state (handle_result cfg s it r)) =
           pl_storage s @ [ExtendPlayer u info]"
  using assms
  by (simp add: handle_result_def return_next_urls_def write_out_def outcome_state_def
      split: option.split)

theorem detail_page_written_witness:
  "sink (outcome_state (handle_result demo (fresh demo) \<lparr>url = ''u'', tries = 1\<rparr> player_page)) =
     [\<lparr>w_url = ''u'', w_tries = 1, result = Some [(''url'', ''p'')], error = None\<rparr>]
   \<and> pl_storage (outcome_state (handle_result demo (fresh demo) \<lparr>url = ''u'', tries = 1\<rparr> player_page)) =
     [ExtendPlayer ''p'' [(''url'', ''p'')]]"
  using detail_page_written [where r = player_page and info = "[(''url'', ''p'')]" and u = "''p''"
      and cfg = demo and s = "fresh demo" and merged = "[(''url'', ''p'')]"
      and it = "\<lparr>url = ''u'', tries = 1\<rparr>"]
  by (simp add: player_page_def demo_def fresh_def)

text \<open>
  C4 as stated fails: a result that carries a detail-page entity next to a collection-page
  list leaves the sink empty, and so does one whose extend returns null.
\<close>

theorem detail_page_written_counterexample:
  "from_player_page both_pages = Some [(''url'', ''p'')]
   \<and> sink (outcome_state (handle_result demo (fresh demo) (Item ''u'') both_pages)) = []
   \<and> from_player_page player_page = Some [(''url'', ''p'')]
   \<and> sink (outcome_state (handle_result (demo\<lparr>extend_player := (\<lambda>calls u info. None)\<rparr>)
        (fresh demo) (Item ''u'') player_page)) = []"
  by (simp add: both_pages_def team_page_def player_page_def demo_def fresh_def Item_def
      handle_result_def return_next_urls_def write_out_def outcome_state_def)

text \<open>
  C5. A result with a collection-page list and no detail-page entity: every entity of the
  list goes to the storage's add under its own \<open>url\<close>, in order, nothing else changes (the
  sink keeps its records), and the next-URL list is returned.
\<close>

theorem collection_page_only:
  assumes "from_team_page r = Some players"
    and "from_player_page r = None"
    and "map (\<lambda>p. map_of p ''url'') players = map Some us"
    and "next_urls r = Some nx"
  shows "handle_result cfg s it r =
           Inr (s\<lparr>pl_storage := pl_storage s @ map2 AddPlayer us players\<rparr>, nx)
         \<and> sink (outcome_state (handle_result cfg s it r)) = sink s"
  using team_page_branch [OF assms(1,3,4), of cfg s it] by (simp add: outcome_state_def)

theorem collection_page_only_witness:
  "handle_result demo (fresh demo) (Item ''u'') team_page =
     Inr ((fresh demo)\<lparr>pl_storage := [AddPlayer ''p1'' [(''url'', ''p1'')],
                                      AddPlayer ''p2'' [(''url'', ''p2'')]]\<rparr>, [''v'', ''w''])
   \<and> sink (outcome_state (handle_result demo (fresh demo) (Item ''u'') team_page)) = []"
  using collection_page_only [where r = team_page and us = "[''p1'', ''p2'']"
      and players = "[[(''url'', ''p1'')], [(''url'', ''p2'')]]" and nx = "[''v'', ''w'']"
      and cfg = demo and s = "fresh demo" and it = "Item ''u''"]
  by (simp add: team_page_def fresh_def)

text \<open>
  C9. A result with both a collection-page list and a detail-page entity: the entities of
  the list go to add, the only calls on the storage are these adds (no extend), the sink
  keeps its records, and the next-URL list is returned.
\<close>

theorem both_pages_collection_only:
  assumes "from_team_page r = Some players"
    and "from_player_page r = Some info"
    and "map (\<lambda>p. map_of p ''url'') players = map Some us"
    and "next_urls r = Some nx"
  shows "handle_result cfg s it r =
           Inr (s\<lparr>pl_storage := pl_storage s @ map2 AddPlayer us players\<rparr>, nx)
         \<and> sink (outcome_state (handle_result cfg s it r)) = sink s
         \<and> pl_storage (outcome_state (handle_result cfg s it r)) =
             pl_storage s @ map2 AddPlayer us players"
  using team_page_branch [OF assms(1,3,4), of cfg s it] by (simp add: outcome_state_def)

theorem both_pages_collection_only_witness:
  "handle_result demo (fresh demo) (Item ''u'') both_pages =
     Inr ((fresh demo)\<lparr>pl_storage := [AddPlayer ''p1'' [(''url'', ''p1'')],
                                      AddPlayer ''p2'' [(''url'', ''p2'')]]\<rparr>, [''v'', ''w''])
   \<and> sink (outcome_state (handle_result demo (fresh demo) (Item ''u'') both_pages)) = []
   \<and> pl_storage (outcome_state (handle_result demo (fresh demo) (Item ''u'') both_pages)) =
       [AddPlayer ''p1'' [(''url'', ''p1'')], AddPlayer ''p2'' [(''url'', ''p2'')]]"
  using both_pages_collection_only [where r = both_pages and us = "[''p1'', ''p2'']"
      and players = "[[(''url'', ''p1'')], [(''url'', ''p2'')]]" and nx = "[''v'', ''w'']"
      and info = "[(''url'', ''p'')]" and cfg = demo and s = "fresh demo" and it = "Item ''u''"]
  by (simp add: both_pages_def team_page_def fresh_def)

text \<open>
  C10. The loop handles a future whose download returned a detail-page result, and the
  storage's extend returns null: the both-null \<open>RuntimeError\<close> leaves the loop body; extend
  has been called, the sink is as it was.
\<close>

theorem extend_null_raises:
  assumes "future_to_item s f = Some it"
    and "download cfg f (url it) (tries it) = Fetched r"
    and "from_team_page r = None"
    and "from_player_page r = Some info"
    and "map_of info ''url'' = Some u"
    and "extend_player cfg (pl_storage s) u info = None"
  shows "handle_done cfg s f =
           Inl (RuntimeError, s\<lparr>future_to_item := (future_to_item s)(f := None),
                                pl_storage := pl_storage s @ [ExtendPlayer u info]\<rparr>)
         \<and> sink (state_of (handle_done cfg s f)) = sink s"
  using assms by (simp add: handle_done_def handle_result_def write_out_def)

theorem extend_null_raises_witness:
  "handle_done null_storage (seed (fresh null_storage) [''u'']) 0 =
     Inl (RuntimeError, (seed (fresh null_storage) [''u''])
            \<lparr>future_to_item := (future_to_item (seed (fresh null_storage) [''u'']))(0 := None),
             pl_storage := [ExtendPlayer ''p'' [(''url'', ''p'')]]\<rparr>)
   \<and> sink (state_of (handle_done null_storage (seed (fresh null_storage) [''u'']) 0)) = []"
  using extend_null_raises [where cfg = null_storage and s = "seed (fresh null_storage) [''u'']"
      and f = 0 and it = "\<lparr>url = ''u'', tries = 1\<rparr>" and r = player_page
      and info = "[(''url'', ''p'')]" and u = "''p''"]
  by (simp add: null_storage_def demo_def player_page_def fresh_def submit_def Item_def)

subsection \<open>The outcome records\<close>

text \<open>
  C6. In every state of every run, also the one a raise leaves, each record in the sink
  has exactly one of \<open>result\<close> and \<open>error\<close> non-null. A write with both null raises
  \<open>RuntimeError\<close> and leaves the runner, sink included, as it was; a write with one of them
  non-null appends the record \<open>{url, tries, result, error}\<close> to the sink.
\<close>

theorem outcome_record_exactly_one:
  "(run cfg es = Some res \<longrightarrow> list_all exactly_one (sink (state_of res)))
   \<and> write_out s it None None = Inl (RuntimeError, s)
   \<and> (r \<noteq> None \<or> e \<noteq> None \<longrightarrow>
        write_out s it r e =
          Inr (s\<lparr>sink := sink s @
                   [\<lparr>w_url = url it, w_tries = tries it, result = r, error = e\<rparr>]\<rparr>))"
proof -
  have "list_all exactly_one (sink (state_of res))" if "run cfg es = Some res"
  proof (cases "max_parallel cfg < 0")
    case True
    with that have "res = Inl (ValueError, fresh cfg)"
      by (simp add: run_def init_def split: if_splits)
    then show ?thesis by (simp add: fresh_def)
  next
    case False
    with that run_sched_ok [of cfg es res] show ?thesis
      by (simp add: sched_ok_def sink_ok_def)
  qed
  then show ?thesis by (auto simp: write_out_def)
qed

theorem outcome_record_exactly_one_witness:
  "after_run quick (one_round 0) sink =
     Some [\<lparr>w_url = ''u'', w_tries = 1, result = None, error = Some ''timeout''\<rparr>]
   \<and> map_option (list_all exactly_one) (after_run quick (one_round 0) sink) = Some True
   \<and> write_out (fresh quick) (Item ''u'') None None = Inl (RuntimeError, fresh quick)
   \<and> write_out (fresh quick) (Item ''u'') None (Some ''e'') =
       Inr ((fresh quick)\<lparr>sink := [\<lparr>w_url = ''u'', w_tries = 0, result = None,
                                     error = Some ''e''\<rparr>]\<rparr>)"
  using outcome_record_exactly_one [where cfg = quick and es = "one_round 0"
      and res = "the (run quick (one_round 0))" and s = "fresh quick" and it = "Item ''u''"
      and r = None and e = "Some ''e''"]
  by (simp add: after_run_def run_def init_def quick_def demo_def one_round_def fresh_def
      submit_def Item_def handle_done_def write_out_def exactly_one_def)

subsection \<open>Retries and the frontier\<close>

text \<open>
  C8. The loop is about to handle a future \<open>f\<close> whose download failed and whose item has
  tries left: the round succeeds, the item, with its URL and one more try, stands under a
  new future, its URL was in the frontier already, and the frontier is the same set after.
\<close>

theorem retry_keeps_frontier:
  assumes "run cfg es = Some (Inr s)"
    and "done_queue s = f # fs"
    and "future_to_item s f = Some it"
    and "download cfg f (url it) (tries it) = Failed e"
    and "tries it < max_tries cfg"
  shows "\<exists>s'. step cfg s Handle = Some (Inr s')
           \<and> future_to_item s' (next_future s) = Some (it\<lparr>tries := tries it + 1\<rparr>)
           \<and> url it \<in> seen s \<and> seen s' = seen s"
proof -
  from run_sched_ok [OF assms(1)] have "frontier_ok s" by (simp add: sched_ok_def)
  with assms(3) have "url it \<in> seen s" by (auto simp: frontier_ok_def)
  with assms show ?thesis
    by (auto simp: handle_done_def Let_def insert_absorb)
qed

theorem retry_keeps_frontier_witness:
  "run demo [Acquire 0, Complete 0, Wake [0]] = Some (Inr woken)
   \<and> done_queue woken = [0]
   \<and> future_to_item woken 0 = Some \<lparr>url = ''u'', tries = 1\<rparr>
   \<and> (\<exists>s'. step demo woken Handle = Some (Inr s')
         \<and> future_to_item s' (next_future woken) = Some \<lparr>url = ''u'', tries = 2\<rparr>
         \<and> ''u'' \<in> seen woken \<and> seen s' = seen woken)"
proof -
  have w: "run demo [Acquire 0, Complete 0, Wake [0]] = Some (Inr woken)"
    by (simp add: woken_def run_def init_def demo_def fresh_def submit_def Item_def)
  have q: "done_queue woken = [0]"
    and i: "future_to_item woken 0 = Some \<lparr>url = ''u'', tries = 1\<rparr>"
    by (simp_all add: woken_def run_def init_def demo_def fresh_def submit_def Item_def)
  have d: "download demo 0 (url \<lparr>url = ''u'', tries = 1\<rparr>) (tries \<lparr>url = ''u'', tries = 1\<rparr>)
             = Failed ''timeout''"
    and t: "tries \<lparr>url = ''u'', tries = 1\<rparr> < max_tries demo"
    by (simp_all add: demo_def)
  from retry_keeps_frontier [OF w q i d t] w q i show ?thesis by simp
qed

subsection \<open>The concurrency limit\<close>

text \<open>
  C2, as amended. In every state of a run whose \<open>max_parallel\<close> is not negative, the tasks
  that hold a permit of the semaphore are at most \<open>max_parallel\<close>, and each of them is a
  future of the in-flight set.
\<close>

theorem permits_never_exceed_limit:
  assumes "run cfg es = Some res"
    and "0 \<le> max_parallel cfg"
  shows "int (card (holding (state_of res))) \<le> max_parallel cfg
         \<and> holding (state_of res) \<subseteq> in_air (state_of res)"
  using run_permits_ok [OF assms] by (auto simp: permits_ok_def)

theorem permits_never_exceed_limit_witness:
  "after_run crowd [Acquire 1] holding = Some {1}
   \<and> after_run crowd [Acquire 1] in_air = Some {1, 0}
   \<and> map_option card (after_run crowd [Acquire 1] holding) = Some 1
   \<and> max_parallel crowd = 1"
  using permits_never_exceed_limit [where cfg = crowd and es = "[Acquire 1]"
      and res = "the (run crowd [Acquire 1])"]
  by (simp add: after_run_def run_def init_def crowd_def demo_def fresh_def submit_def Item_def)

text \<open>
  C2 as stated fails: with two seeds and \<open>max_parallel = 1\<close> the in-flight set holds two
  futures as soon as the seeds are submitted.
\<close>

theorem in_air_exceeds_limit_counterexample:
  "after_run crowd [] (in_air_bounded crowd) = Some False
   \<and> after_run crowd [] in_air = Some {1, 0}
   \<and> max_parallel crowd = 1"
  by (simp add: after_run_def in_air_bounded_def run_def init_def crowd_def demo_def fresh_def
      submit_def Item_def)

subsection \<open>Retries to the end\<close>

lemmas sample_defs = after_run_def run_def init_def demo_def one_round_def three_rounds_def fresh_def
  submit_def Item_def handle_done_def write_out_def handle_result_def return_next_urls_def
  player_page_def dispatches_def records_def flights_def






subsection \<open>Seeding\<close>

text \<open>
  C1 at a seed list that names one URL twice: seeding files two items for it, each on its
  first try, under the futures 0 and 1, both in the in-flight set.
\<close>

theorem duplicate_seed_fetched_twice:
  "after_run twice [] (items_of [0, 1]) =
     Some [Some \<lparr>url = ''u'', tries = 1\<rparr>, Some \<lparr>url = ''u'', tries = 1\<rparr>]
   \<and> after_run twice [] in_air = Some {1, 0}
   \<and> after_run twice [] (dispatches ''u'') = Some 2"
  by (simp add: sample_defs twice_def items_of_def)


end
